theory Spec2Isabelle
  imports Complex_Main "HOL-Library.AList"
begin

section \<open>The environment: exceptions, the clock and the observable events\<close>

text \<open>
  The request-governance layer of the repository is three small utilities:
  \<^verbatim>\<open>RateLimiter\<close> and \<^verbatim>\<open>retry_with_backoff\<close> in
  \<^verbatim>\<open>games_elt/utils/api_utils.py\<close> and \<^verbatim>\<open>CacheManager\<close> in
  \<^verbatim>\<open>games_elt/utils/cache_manager.py\<close>. The rate limiter and the cache read the
  wall clock (\<^verbatim>\<open>time.time()\<close>), the rate limiter and the retry wrapper sleep, and
  all three log.

  Time is a real number of seconds (Python's floats, without rounding). The clock only
  moves when the program sleeps or when the environment lets time pass between two calls
  (\<open>advance\<close>); the statements of one call run at one instant.

  Python exceptions are values. \<^verbatim>\<open>except Exception\<close> intercepts every error
  class, but not \<^verbatim>\<open>KeyboardInterrupt\<close> and \<^verbatim>\<open>SystemExit\<close>, which derive
  from \<^verbatim>\<open>BaseException\<close> only.
\<close>

datatype exn =
    Exception string
  | ValueError string
  | KeyError string
  | OSError string
  | TypeError string
  | KeyboardInterrupt
  | SystemExit

fun is_Exception :: "exn \<Rightarrow> bool" where
  "is_Exception KeyboardInterrupt = False"
| "is_Exception SystemExit = False"
| "is_Exception _ = True"

text \<open>
  What an observer of a run sees, in order: an invocation of the wrapped operation, a
  call of \<^verbatim>\<open>time.sleep\<close> with its argument, and the log records. A log record
  keeps the numbers or the file key that its message is formatted from:
  \<^verbatim>\<open>logger.debug\<close> of the rate limiter (the wait), \<^verbatim>\<open>logger.warning\<close> of the
  retry wrapper (attempt + 1 and the wait), \<^verbatim>\<open>logger.error\<close> of the cache (the key
  whose file failed).
\<close>

datatype event =
    Invoke
  | Sleep real
  | Log_debug real
  | Log_warning int real
  | Log_error string

record world =
  now :: real
  trace :: "event list"

definition emit :: "event \<Rightarrow> 'a world_scheme \<Rightarrow> 'a world_scheme" where
  "emit e w = w\<lparr>trace := trace w @ [e]\<rparr>"

definition advance :: "real \<Rightarrow> 'a world_scheme \<Rightarrow> 'a world_scheme" where
  "advance d w = w\<lparr>now := now w + d\<rparr>"

text \<open>
  \<^verbatim>\<open>time.sleep(secs)\<close> raises \<^verbatim>\<open>ValueError\<close> on a negative argument and
  otherwise suspends the caller for \<open>secs\<close> seconds.
\<close>

definition time_sleep :: "real \<Rightarrow> 'a world_scheme \<Rightarrow> exn + 'a world_scheme" where
  "time_sleep secs w =
     (if secs < 0 then Inl (ValueError ''sleep length must be non-negative'')
      else Inr (emit (Sleep secs) (advance secs w)))"

definition sleeps :: "event list \<Rightarrow> real list" where
  "sleeps tr = concat (map (\<lambda>e. case e of Sleep d \<Rightarrow> [d] | _ \<Rightarrow> []) tr)"

fun is_log :: "event \<Rightarrow> bool" where
  "is_log (Log_debug _) = True"
| "is_log (Log_warning _ _) = True"
| "is_log (Log_error _) = True"
| "is_log _ = False"

section \<open>retry_with_backoff\<close>

text \<open>
  \<^verbatim>\<open>
  def retry_with_backoff(max_retries: int = 3, initial_wait: float = 1.0):
      def decorator(func):
          def wrapper(*args, **kwargs):
              wait_time = initial_wait
              for attempt in range(max_retries):
                  try:
                      return func(*args, **kwargs)
                  except Exception as e:
                      if attempt == max_retries - 1:
                          raise
                      logger.warning(...)
                      time.sleep(wait_time)
                      wait_time *= 2
              return None
          return wrapper
      return decorator
  \<close>
  The wrapped operation is a function on its own state \<open>'s\<close> that returns a result or
  raises. The wrapper returns the operation's result (\<open>Some\<close>) or Python's
  \<^verbatim>\<open>None\<close> when the loop ends without a return.
\<close>

datatype 'a outcome = Returned 'a | Raised exn

type_synonym ('s, 'a) operation = "'s \<Rightarrow> 'a outcome \<times> 's"

definition py_range :: "int \<Rightarrow> int list" where
  "py_range n = map int [0..<nat n]"

fun retry_loop ::
  "int \<Rightarrow> ('s, 'a) operation \<Rightarrow> int list \<Rightarrow> real \<Rightarrow> 's \<times> world \<Rightarrow> 'a option outcome \<times> 's \<times> world"
where
  "retry_loop max_retries func [] wait_time (s, w) = (Returned None, s, w)"
| "retry_loop max_retries func (attempt # rest) wait_time (s, w) =
     (case func s of
        (Returned r, s') \<Rightarrow> (Returned (Some r), s', emit Invoke w)
      | (Raised e, s') \<Rightarrow>
          if \<not> is_Exception e then (Raised e, s', emit Invoke w)
          else if attempt = max_retries - 1 then (Raised e, s', emit Invoke w)
          else
            (case time_sleep wait_time (emit (Log_warning (attempt + 1) wait_time) (emit Invoke w)) of
               Inl err \<Rightarrow> (Raised err, s', emit (Log_warning (attempt + 1) wait_time) (emit Invoke w))
             | Inr w' \<Rightarrow> retry_loop max_retries func rest (wait_time * 2) (s', w')))"

definition retry_with_backoff ::
  "int \<Rightarrow> real \<Rightarrow> ('s, 'a) operation \<Rightarrow> 's \<times> world \<Rightarrow> 'a option outcome \<times> 's \<times> world"
where
  "retry_with_backoff max_retries initial_wait func sw =
     retry_loop max_retries func (py_range max_retries) initial_wait sw"

text \<open>The state of the operation after \<open>j\<close> invocations, and the outcome of invocation \<open>j\<close>
  (counted from 0), when each invocation starts where the previous one ended.\<close>

definition state_after :: "('s, 'a) operation \<Rightarrow> nat \<Rightarrow> 's \<Rightarrow> 's" where
  "state_after func j s = ((\<lambda>x. snd (func x)) ^^ j) s"

definition outcome_of :: "('s, 'a) operation \<Rightarrow> nat \<Rightarrow> 's \<Rightarrow> 'a outcome" where
  "outcome_of func j s = fst (func (state_after func j s))"

fun fails :: "'a outcome \<Rightarrow> bool" where
  "fails (Raised e) = is_Exception e"
| "fails (Returned _) = False"

text \<open>The wrapper's result type has one more value than the operation's: \<^verbatim>\<open>None\<close>.\<close>

fun lift_outcome :: "'a outcome \<Rightarrow> 'a option outcome" where
  "lift_outcome (Returned r) = Returned (Some r)"
| "lift_outcome (Raised e) = Raised e"

text \<open>The events of one failed attempt that is followed by a retry: attempt \<open>k + i\<close> of a loop
  whose wait at attempt \<open>k\<close> is \<open>v\<close>.\<close>

definition attempt_events :: "nat \<Rightarrow> real \<Rightarrow> nat \<Rightarrow> event list" where
  "attempt_events k v i = [Invoke, Log_warning (int (k + i) + 1) (v * 2 ^ i), Sleep (v * 2 ^ i)]"

definition invocations :: "event list \<Rightarrow> nat" where
  "invocations tr = length (filter (\<lambda>ev. ev = Invoke) tr)"

text \<open>
  The operation of the repository's test: it always raises, and its state counts its calls.
  \<^verbatim>\<open>
  @retry_with_backoff(max_retries=3, initial_wait=0.1)
  def example_function():
      raise Exception("Test error")
  \<close>
\<close>

definition example_function :: "(nat, unit) operation" where
  "example_function s = (Raised (Exception ''Test error''), Suc s)"

section \<open>RateLimiter\<close>

text \<open>
  \<^verbatim>\<open>
  class RateLimiter:
      def __init__(self, requests_per_second: int = 20):
          self.requests_per_second = requests_per_second
          self.last_request_time = 0
          self.request_count = 0
          self.window_start = time.time()

      def wait_if_needed(self):
          current_time = time.time()
          if current_time - self.window_start >= 1:
              self.window_start = current_time
              self.request_count = 0
          if self.request_count >= self.requests_per_second:
              wait_time = 1 - (current_time - self.window_start)
              if wait_time > 0:
                  logger.debug(...)
                  time.sleep(wait_time)
                  self.window_start = time.time()
                  self.request_count = 0
          self.request_count += 1
          self.last_request_time = current_time
  \<close>
\<close>

record rate_limiter =
  requests_per_second :: int
  last_request_time :: real
  request_count :: int
  window_start :: real

definition RateLimiter_init :: "int \<Rightarrow> world \<Rightarrow> rate_limiter" where
  "RateLimiter_init rps w =
     \<lparr>requests_per_second = rps, last_request_time = 0, request_count = 0, window_start = now w\<rparr>"

definition wait_if_needed :: "rate_limiter \<Rightarrow> world \<Rightarrow> exn + rate_limiter \<times> world" where
  "wait_if_needed self w =
     (let current_time = now w;
          self1 = (if current_time - window_start self \<ge> 1
                   then self\<lparr>window_start := current_time, request_count := 0\<rparr>
                   else self);
          count_request = (\<lambda>slf. slf\<lparr>request_count := request_count slf + 1,
                                      last_request_time := current_time\<rparr>)
      in if request_count self1 \<ge> requests_per_second self1 then
           let wait_time = 1 - (current_time - window_start self1) in
           if wait_time > 0 then
             (case time_sleep wait_time (emit (Log_debug wait_time) w) of
                Inl err \<Rightarrow> Inl err
              | Inr w' \<Rightarrow>
                  Inr (count_request (self1\<lparr>window_start := now w', request_count := 0\<rparr>), w'))
           else Inr (count_request self1, w)
         else Inr (count_request self1, w))"

text \<open>
  A sequence of calls, as in the test's loop
  \<^verbatim>\<open>for _ in range(20): rate_limiter.wait_if_needed()\<close>: the list gives, for each
  call, the time that passes before it.
\<close>

fun acquire_all :: "real list \<Rightarrow> rate_limiter \<times> world \<Rightarrow> exn + rate_limiter \<times> world" where
  "acquire_all [] sw = Inr sw"
| "acquire_all (d # ds) (self, w) =
     (case wait_if_needed self (advance d w) of
        Inl err \<Rightarrow> Inl err
      | Inr sw' \<Rightarrow> acquire_all ds sw')"

text \<open>
  The accounting behind the time bound: after \<open>n\<close> calls, all calls but the
  \<open>request_count\<close> of the current window were made in earlier windows, each a full
  second long, and the clock is not behind the current window's start.
\<close>

definition window_inv :: "int \<Rightarrow> real \<Rightarrow> nat \<Rightarrow> rate_limiter \<Rightarrow> world \<Rightarrow> bool" where
  "window_inv B t0 n self w =
     (requests_per_second self = B \<and> window_start self \<le> now w \<and> request_count self \<le> B \<and>
      int n - request_count self \<le> B * \<lfloor>window_start self - t0\<rfloor>)"

section \<open>CacheManager\<close>

text \<open>
  The cache has two tiers: the dict \<^verbatim>\<open>memory_cache\<close> of the object, and one file
  \<^verbatim>\<open><key>.json\<close> per key in the cache directory. A dict and a directory are
  association lists read with \<open>map_of\<close>; \<open>dict_items\<close> lists every key once, with
  the entry \<open>map_of\<close> finds, as \<^verbatim>\<open>items()\<close> and a directory listing do.

  An entry of the memory tier always has its \<^verbatim>\<open>timestamp\<close>: the two assignments to
  \<^verbatim>\<open>memory_cache[key]\<close> store a dict built by \<^verbatim>\<open>set\<close>, or a parsed record
  whose \<^verbatim>\<open>timestamp\<close> has just been subtracted from the time. The second may lack
  the key \<^verbatim>\<open>"value"\<close>.

  A file is \<open>Inaccessible\<close> when even the test \<^verbatim>\<open>cache_file.exists()\<close> raises:
  \<^verbatim>\<open>Path.exists\<close> of Python 3.8 to 3.11, the versions \<^verbatim>\<open>setup.py\<close> declares,
  returns \<^verbatim>\<open>False\<close> on the errors ENOENT, ENOTDIR, EBADF and ELOOP and re-raises every
  other \<^verbatim>\<open>OSError\<close> of \<^verbatim>\<open>stat\<close>, such as the one for a path that may not be
  searched. A file is \<open>Unreadable\<close> when it exists and opening it or
  \<^verbatim>\<open>json.load\<close> raises (a directory, no permission to read, text that is not
  JSON). Otherwise it parses to \<open>Json ts v\<close>: \<open>ts\<close> is
  the number under \<^verbatim>\<open>"timestamp"\<close>, \<open>None\<close> when \<^verbatim>\<open>data["timestamp"]\<close> or
  the subtraction raises; \<open>v\<close> is the payload under \<^verbatim>\<open>"value"\<close>, \<open>None\<close> when the
  key is missing. Payloads are JSON values, which \<^verbatim>\<open>json.dump\<close> and
  \<^verbatim>\<open>json.load\<close> give back as they were.

  The directory belongs to the cache: a file that exists can be unlinked. Writing can
  fail, and \<open>disk\<close> says how for each key and payload: \<^verbatim>\<open>open("w")\<close> raises and
  the directory is as before, or \<^verbatim>\<open>json.dump\<close> raises after the file has been
  truncated, which leaves text that is not JSON.
\<close>

record 'v entry =
  timestamp :: real
  val :: "'v option"

datatype 'v content = Inaccessible | Unreadable | Json "real option" "'v option"

datatype write_result = Written | Open_failed | Dump_failed

record 'v cache_manager = world +
  ttl :: real
  memory_cache :: "(string \<times> 'v entry) list"
  files :: "(string \<times> 'v content) list"
  disk :: "string \<Rightarrow> 'v \<Rightarrow> write_result"

text \<open>
  \<^verbatim>\<open>
  def __init__(self, cache_dir: str = ".cache", ttl: int = 3600):
      self.cache_dir = Path(cache_dir)
      self.ttl = ttl
      self.memory_cache = {}
      self.cache_dir.mkdir(parents=True, exist_ok=True)
  \<close>
\<close>

definition CacheManager_init ::
  "real \<Rightarrow> (string \<times> 'v content) list \<Rightarrow> (string \<Rightarrow> 'v \<Rightarrow> write_result) \<Rightarrow> world \<Rightarrow> 'v cache_manager"
where
  "CacheManager_init t dir io w =
     \<lparr>now = now w, trace = trace w, ttl = t, memory_cache = [], files = dir, disk = io\<rparr>"

definition dict_items :: "('k \<times> 'a) list \<Rightarrow> ('k \<times> 'a) list" where
  "dict_items al = AList.clearjunk al"

text \<open>\<^verbatim>\<open>cache_file.exists()\<close>, \<^verbatim>\<open>open("r")\<close> with \<^verbatim>\<open>json.load\<close>,
  \<^verbatim>\<open>cache_file.unlink()\<close>, \<^verbatim>\<open>cache_dir.glob("*.json")\<close>, and \<^verbatim>\<open>open("w")\<close>
  with \<^verbatim>\<open>json.dump\<close>.\<close>

definition file_exists :: "string \<Rightarrow> (string \<times> 'v content) list \<Rightarrow> exn + bool" where
  "file_exists name dir =
     (case map_of dir name of
        None \<Rightarrow> Inr False
      | Some Inaccessible \<Rightarrow> Inl (OSError name)
      | Some c \<Rightarrow> Inr True)"

definition read_json :: "string \<Rightarrow> (string \<times> 'v content) list \<Rightarrow> exn + real option \<times> 'v option" where
  "read_json name dir =
     (case map_of dir name of
        None \<Rightarrow> Inl (OSError name)
      | Some Inaccessible \<Rightarrow> Inl (OSError name)
      | Some Unreadable \<Rightarrow> Inl (OSError name)
      | Some (Json ts v) \<Rightarrow> Inr (ts, v))"

definition unlink :: "string \<Rightarrow> (string \<times> 'v content) list \<Rightarrow> (string \<times> 'v content) list" where
  "unlink name dir = AList.delete name dir"

definition glob_json :: "(string \<times> 'v content) list \<Rightarrow> string list" where
  "glob_json dir = map fst (dict_items dir)"

definition write_json ::
  "string \<Rightarrow> real \<Rightarrow> 'v \<Rightarrow> write_result \<Rightarrow> (string \<times> 'v content) list
     \<Rightarrow> exn option \<times> (string \<times> 'v content) list"
where
  "write_json name ts v r dir =
     (case r of
        Written \<Rightarrow> (None, AList.update name (Json (Some ts) (Some v)) dir)
      | Open_failed \<Rightarrow> (Some (OSError name), dir)
      | Dump_failed \<Rightarrow> (Some (TypeError name), AList.update name Unreadable dir))"

text \<open>
  \<^verbatim>\<open>
  def get(self, key):
      if key in self.memory_cache:
          data = self.memory_cache[key]
          if time.time() - data["timestamp"] <= self.ttl:
              return data["value"]
          else:
              del self.memory_cache[key]
      cache_file = self._get_cache_file(key)
      if cache_file.exists():
          try:
              with cache_file.open("r") as f:
                  data = json.load(f)
              if time.time() - data["timestamp"] <= self.ttl:
                  self.memory_cache[key] = data
                  return data["value"]
              else:
                  cache_file.unlink()
          except Exception as e:
              logger.error(...)
      return None
  \<close>
  \<open>get_try_block\<close> is the body of the \<^verbatim>\<open>try\<close>: it returns a payload, falls
  through (\<open>Inr None\<close>) or raises, and the state it leaves is kept in each case. The
  test \<^verbatim>\<open>cache_file.exists()\<close> stands before the \<^verbatim>\<open>try\<close>, so what it raises
  leaves \<^verbatim>\<open>get\<close>, as does the \<^verbatim>\<open>KeyError\<close> of \<^verbatim>\<open>data["value"]\<close> on the
  memory path.
\<close>

definition get_try_block :: "string \<Rightarrow> 'v cache_manager \<Rightarrow> (exn + 'v option) \<times> 'v cache_manager" where
  "get_try_block key self =
     (case read_json key (files self) of
        Inl e \<Rightarrow> (Inl e, self)
      | Inr (ts_field, val_field) \<Rightarrow>
          (case ts_field of
             None \<Rightarrow> (Inl (KeyError ''timestamp''), self)
           | Some ts \<Rightarrow>
               if now self - ts \<le> ttl self then
                 let self' = self\<lparr>memory_cache :=
                       AList.update key \<lparr>timestamp = ts, val = val_field\<rparr> (memory_cache self)\<rparr>
                 in (case val_field of
                       None \<Rightarrow> (Inl (KeyError ''value''), self')
                     | Some v \<Rightarrow> (Inr (Some v), self'))
               else (Inr None, self\<lparr>files := unlink key (files self)\<rparr>)))"

definition get_file_cache :: "string \<Rightarrow> 'v cache_manager \<Rightarrow> (exn + 'v option) \<times> 'v cache_manager" where
  "get_file_cache key self =
     (case file_exists key (files self) of
        Inl e \<Rightarrow> (Inl e, self)
      | Inr True \<Rightarrow>
          (case get_try_block key self of
             (Inl e, self') \<Rightarrow> (Inr None, emit (Log_error key) self')
           | (Inr r, self') \<Rightarrow> (Inr r, self'))
      | Inr False \<Rightarrow> (Inr None, self))"

definition CacheManager_get :: "string \<Rightarrow> 'v cache_manager \<Rightarrow> (exn + 'v option) \<times> 'v cache_manager" where
  "CacheManager_get key self =
     (case map_of (memory_cache self) key of
        Some data \<Rightarrow>
          if now self - timestamp data \<le> ttl self then
            (case val data of
               None \<Rightarrow> (Inl (KeyError ''value''), self)
             | Some v \<Rightarrow> (Inr (Some v), self))
          else get_file_cache key (self\<lparr>memory_cache := AList.delete key (memory_cache self)\<rparr>)
      | None \<Rightarrow> get_file_cache key self)"

text \<open>
  \<^verbatim>\<open>
  def set(self, key, value):
      data = {"timestamp": time.time(), "value": value}
      self.memory_cache[key] = data
      cache_file = self._get_cache_file(key)
      try:
          with cache_file.open("w") as f:
              json.dump(data, f)
      except Exception as e:
          logger.error(...)
  \<close>
\<close>

definition CacheManager_set :: "string \<Rightarrow> 'v \<Rightarrow> 'v cache_manager \<Rightarrow> (exn + unit) \<times> 'v cache_manager" where
  "CacheManager_set key v self =
     (let data = \<lparr>timestamp = now self, val = Some v\<rparr>;
          self1 = self\<lparr>memory_cache := AList.update key data (memory_cache self)\<rparr>
      in case write_json key (now self) v (disk self1 key v) (files self1) of
           (None, dir) \<Rightarrow> (Inr (), self1\<lparr>files := dir\<rparr>)
         | (Some e, dir) \<Rightarrow> (Inr (), emit (Log_error key) (self1\<lparr>files := dir\<rparr>)))"

text \<open>
  \<^verbatim>\<open>
  def cleanup_expired(self):
      current_time = time.time()
      expired_keys = [key for key, data in self.memory_cache.items()
                      if current_time - data["timestamp"] > self.ttl]
      for key in expired_keys:
          del self.memory_cache[key]
      for cache_file in self.cache_dir.glob("*.json"):
          try:
              with cache_file.open("r") as f:
                  data = json.load(f)
              if current_time - data["timestamp"] > self.ttl:
                  cache_file.unlink()
          except Exception as e:
              logger.error(...)
  \<close>
  \<open>cleanup_file\<close> is one round of the second loop.
\<close>

definition cleanup_file :: "real \<Rightarrow> string \<Rightarrow> 'v cache_manager \<Rightarrow> 'v cache_manager" where
  "cleanup_file current_time name self =
     (case read_json name (files self) of
        Inl e \<Rightarrow> emit (Log_error name) self
      | Inr (ts_field, val_field) \<Rightarrow>
          (case ts_field of
             None \<Rightarrow> emit (Log_error name) self
           | Some ts \<Rightarrow>
               if current_time - ts > ttl self then self\<lparr>files := unlink name (files self)\<rparr>
               else self))"

definition CacheManager_cleanup_expired :: "'v cache_manager \<Rightarrow> (exn + unit) \<times> 'v cache_manager" where
  "CacheManager_cleanup_expired self =
     (let current_time = now self;
          expired_keys = map fst (filter (\<lambda>(key, data). current_time - timestamp data > ttl self)
                                    (dict_items (memory_cache self)));
          self1 = self\<lparr>memory_cache := fold AList.delete expired_keys (memory_cache self)\<rparr>
      in (Inr (), fold (cleanup_file current_time) (glob_json (files self1)) self1))"

text \<open>A file that \<^verbatim>\<open>cleanup_expired\<close> can date and finds older than the time to
  live, and a file whose reading raises before its age is known.\<close>

fun expired_record :: "real \<Rightarrow> real \<Rightarrow> 'v content option \<Rightarrow> bool" where
  "expired_record t life (Some (Json (Some ts) v)) = (t - ts > life)"
| "expired_record t life c = False"

fun unreadable_record :: "'v content option \<Rightarrow> bool" where
  "unreadable_record (Some Inaccessible) = True"
| "unreadable_record (Some Unreadable) = True"
| "unreadable_record (Some (Json None v)) = True"
| "unreadable_record c = False"

text \<open>
  Example states: a cache created at time \<open>t\<close> over a directory, on a disk that takes
  every write; the run of the cleanup scenario (time to live 1 second, \<open>old\<close> set at 0,
  \<open>new\<close> set at 0.5, cleanup at 1.5); a directory with an unreadable file, a record
  without a timestamp and an expired record; a directory whose file \<^verbatim>\<open>k.json\<close> holds
  \<^verbatim>\<open>{"timestamp": 0}\<close>, a record with no payload; and a directory where the test for
  \<^verbatim>\<open>k.json\<close> raises.
\<close>

definition fresh_cache :: "real \<Rightarrow> (string \<times> nat content) list \<Rightarrow> real \<Rightarrow> nat cache_manager" where
  "fresh_cache life dir t = CacheManager_init life dir (\<lambda>k v. Written) \<lparr>now = t, trace = []\<rparr>"

definition two_sets_then_cleanup :: "nat cache_manager" where
  "two_sets_then_cleanup =
     snd (CacheManager_cleanup_expired (advance 1
       (snd (CacheManager_set ''new'' 2 (advance (1/2)
         (snd (CacheManager_set ''old'' 1 (fresh_cache 1 [] 0))))))))"

definition corrupt_dir :: "(string \<times> nat content) list" where
  "corrupt_dir = [(''bad'', Unreadable), (''partial'', Json None (Some 1)), (''stale'', Json (Some 0) (Some 1))]"

definition valueless_dir :: "(string \<times> nat content) list" where
  "valueless_dir = [(''k'', Json (Some 0) None)]"

definition inaccessible_dir :: "(string \<times> nat content) list" where
  "inaccessible_dir = [(''k'', Inaccessible)]"

section \<open>Properties of retry_with_backoff\<close>

lemma state_after_Suc_shift: "state_after func j (snd (func s)) = state_after func (Suc j) s"
  by (induction j) (simp_all add: state_after_def)

lemma outcome_of_Suc_shift: "outcome_of func j (snd (func s)) = outcome_of func (Suc j) s"
  by (simp add: outcome_of_def state_after_Suc_shift del: funpow.simps)

lemma concat_attempt_events_Suc:
  "concat (map (attempt_events k v) [0..<Suc j]) =
     attempt_events k v 0 @ concat (map (attempt_events (Suc k) (v * 2)) [0..<j])"
proof -
  have "[0..<Suc j] = 0 # map Suc [0..<j]"
    by (simp add: upt_conv_Cons map_Suc_upt del: upt_Suc)
  moreover have "\<And>i. attempt_events k v (Suc i) = attempt_events (Suc k) (v * 2) i"
    by (simp add: attempt_events_def)
  ultimately show ?thesis
    by (simp add: comp_def del: upt_Suc)
qed

lemma retry_loop_all_fail:
  assumes "\<forall>i\<le>j. fails (outcome_of func i s)" and "0 \<le> v" and "n = k + j + 1"
  shows "retry_loop (int n) func (map int [k..<n]) v (s, w) =
     (lift_outcome (outcome_of func j s), state_after func (Suc j) s,
      w\<lparr>now := now w + v * (2 ^ j - 1),
        trace := trace w @ concat (map (attempt_events k v) [0..<j]) @ [Invoke]\<rparr>)"
  using assms
proof (induction j arbitrary: k s w v)
  case 0
  then have f: "fails (outcome_of func 0 s)" by simp
  obtain r s' where fs: "func s = (r, s')" by (cases "func s")
  with f obtain e where r: "r = Raised e" "is_Exception e"
    by (cases r) (simp_all add: outcome_of_def state_after_def)
  from 0 have n: "n = Suc k" by simp
  show ?case
    by (simp add: n fs r outcome_of_def state_after_def emit_def upt_conv_Cons del: upt_Suc)
next
  case (Suc j)
  then have f: "fails (outcome_of func 0 s)" by simp
  obtain r s' where fs: "func s = (r, s')" by (cases "func s")
  with f obtain e where r: "r = Raised e" "is_Exception e"
    by (cases r) (simp_all add: outcome_of_def state_after_def)
  have s': "s' = snd (func s)" by (simp add: fs)
  from Suc.prems have kn: "k < n" "int k \<noteq> int n - 1" by simp_all
  have up: "[k..<n] = k # [Suc k..<n]" using kn by (simp add: upt_conv_Cons)
  define w' where "w' = emit (Sleep v) (advance v (emit (Log_warning (int k + 1) v) (emit Invoke w)))"
  have sl: "time_sleep v (emit (Log_warning (int k + 1) v) (emit Invoke w)) = Inr w'"
    using Suc.prems(2) by (simp add: time_sleep_def w'_def)
  have all': "\<forall>i\<le>j. fails (outcome_of func i s')"
    using Suc.prems(1) by (simp add: s' outcome_of_Suc_shift)
  have n': "n = Suc k + j + 1" using Suc.prems(3) by simp
  have v2: "0 \<le> v * 2" using Suc.prems(2) by simp
  have step: "retry_loop (int n) func (map int [k..<n]) v (s, w) =
      retry_loop (int n) func (map int [Suc k..<n]) (v * 2) (s', w')"
    using kn by (simp add: up fs r sl)
  have now_w': "now w' = now w + v" and trace_w': "trace w' = trace w @ attempt_events k v 0"
    by (simp_all add: w'_def emit_def advance_def attempt_events_def)
  have more_w': "world.more w' = world.more w"
    by (simp add: w'_def emit_def advance_def)
  show ?case
    unfolding step Suc.IH[OF all' v2 n']
    by (simp add: s' state_after_Suc_shift outcome_of_Suc_shift now_w' trace_w'
        concat_attempt_events_Suc algebra_simps more_w' del: upt_Suc funpow.simps)
qed

lemma invocations_append: "invocations (xs @ ys) = invocations xs + invocations ys"
  by (simp add: invocations_def)

lemma sleeps_append: "sleeps (xs @ ys) = sleeps xs @ sleeps ys"
  by (simp add: sleeps_def)

lemma invocations_attempts: "invocations (concat (map (attempt_events k v) [0..<j])) = j"
  by (induction j) (simp_all add: invocations_def attempt_events_def)

lemma sleeps_attempts:
  "sleeps (concat (map (attempt_events k v) [0..<j])) = map (\<lambda>i. v * 2 ^ i) [0..<j]"
  by (induction j) (simp_all add: sleeps_def attempt_events_def)

lemma visible_attempts:
  "filter (\<lambda>ev. \<not> is_log ev) (concat (map (attempt_events k v) [0..<j])) =
     concat (map (\<lambda>i. [Invoke, Sleep (v * 2 ^ i)]) [0..<j])"
  by (induction j) (simp_all add: attempt_events_def)

lemma sum_doubling: "sum_list (map (\<lambda>i. v * 2 ^ i) [0..<j]) = v * (2 ^ j - 1)" for v :: real
  by (induction j) (simp_all add: algebra_simps)

lemma retry_with_backoff_all_fail:
  assumes "0 < max_retries" and "0 \<le> initial_wait"
    and "\<forall>i<nat max_retries. fails (outcome_of func i s)"
  shows "retry_with_backoff max_retries initial_wait func (s, w) =
     (lift_outcome (outcome_of func (nat max_retries - 1) s),
      state_after func (nat max_retries) s,
      w\<lparr>now := now w + initial_wait * (2 ^ (nat max_retries - 1) - 1),
        trace := trace w @ concat (map (attempt_events 0 initial_wait) [0..<nat max_retries - 1]) @ [Invoke]\<rparr>)"
proof -
  define n where "n = nat max_retries"
  define j where "j = n - 1"
  have n: "int n = max_retries" "n = 0 + j + 1" "Suc j = n" "0 < n"
    using assms(1) by (simp_all add: n_def j_def)
  have all: "\<forall>i\<le>j. fails (outcome_of func i s)"
    using assms(3) n(4) by (auto simp add: n_def j_def)
  have "retry_with_backoff max_retries initial_wait func (s, w) =
      retry_loop (int n) func (map int [0..<n]) initial_wait (s, w)"
    using assms(1) by (simp add: retry_with_backoff_def py_range_def n_def)
  also note retry_loop_all_fail[OF all assms(2) n(2)]
  finally have "retry_with_backoff max_retries initial_wait func (s, w) =
     (lift_outcome (outcome_of func j s), state_after func (Suc j) s,
      w\<lparr>now := now w + initial_wait * (2 ^ j - 1),
        trace := trace w @ concat (map (attempt_events 0 initial_wait) [0..<j]) @ [Invoke]\<rparr>)" .
  then show ?thesis
    unfolding n(3) unfolding j_def n_def .
qed

lemma example_function_outcome: "outcome_of example_function i s = Raised (Exception ''Test error'')"
  by (simp add: outcome_of_def example_function_def)

lemma example_function_state: "state_after example_function j s = s + j"
  by (induction j) (simp_all add: state_after_def example_function_def)

text \<open>
  Claim C1. When \<open>max_retries = m > 0\<close> and every invocation of the operation fails
  (raises an error, an instance of \<^verbatim>\<open>Exception\<close>), the wrapper invokes the operation
  exactly \<open>m\<close> times, not \<open>m + 1\<close>: the operation's state is the one after \<open>m\<close>
  invocations and the trace holds \<open>m\<close> more invocations. It then raises the very error of
  the last invocation, invocation \<open>m - 1\<close> counted from 0. The initial wait is a duration,
  \<open>0 \<le> initial_wait\<close>, as \<^verbatim>\<open>time.sleep\<close> requires.
\<close>

theorem retry_exhausted_invokes_max_retries_times:
  assumes "0 < max_retries" and "0 \<le> initial_wait"
    and "\<forall>i<nat max_retries. fails (outcome_of func i s)"
  shows "\<exists>e s' w'.
     retry_with_backoff max_retries initial_wait func (s, w) = (Raised e, s', w') \<and>
     outcome_of func (nat max_retries - 1) s = Raised e \<and>
     s' = state_after func (nat max_retries) s \<and>
     int (invocations (trace w')) = int (invocations (trace w)) + max_retries"
proof -
  from assms(1,3) have "fails (outcome_of func (nat max_retries - 1) s)" by simp
  then obtain e where e: "outcome_of func (nat max_retries - 1) s = Raised e"
    by (cases "outcome_of func (nat max_retries - 1) s") simp_all
  have "invocations [Invoke] = 1" by (simp add: invocations_def)
  then show ?thesis
    using assms(1) e
    by (simp add: retry_with_backoff_all_fail[OF assms] invocations_append invocations_attempts)
qed

theorem retry_exhausted_three_attempts:
  "\<exists>w'. retry_with_backoff 3 1 example_function (0, \<lparr>now = 0, trace = []\<rparr>) =
       (Raised (Exception ''Test error''), 3, w') \<and> invocations (trace w') = 3"
proof -
  have h: "\<forall>i<nat 3. fails (outcome_of example_function i (0::nat))"
    by (simp add: example_function_outcome)
  show ?thesis
    using retry_exhausted_invokes_max_retries_times[of 3 1 example_function 0 "\<lparr>now = 0, trace = []\<rparr>", OF _ _ h]
    by (auto simp add: example_function_outcome example_function_state invocations_def)
qed

text \<open>
  Claim C3. With \<open>max_retries = m > 0\<close> and \<open>initial_wait = w > 0\<close> on an operation that
  fails at every attempt, the invocations and sleeps of the run alternate, one sleep between
  two consecutive attempts and none after the last one; the \<open>i\<close>-th sleep (from 0) lasts
  \<open>w * 2 ^ i\<close>; the clock advances by the sum of the sleeps, \<open>w * (2 ^ (m - 1) - 1)\<close>.
  At \<open>w = 0.1\<close> and \<open>m = 3\<close> the sleeps are 0.1 and 0.2, in total 0.3 seconds.
\<close>

theorem retry_backoff_waits_double:
  assumes "0 < max_retries" and "0 < initial_wait"
    and "\<forall>i<nat max_retries. fails (outcome_of func i s)"
  shows "\<exists>e s' w' tr.
     retry_with_backoff max_retries initial_wait func (s, w) = (Raised e, s', w') \<and>
     trace w' = trace w @ tr \<and>
     filter (\<lambda>ev. \<not> is_log ev) tr =
       concat (map (\<lambda>i. [Invoke, Sleep (initial_wait * 2 ^ i)]) [0..<nat max_retries - 1]) @ [Invoke] \<and>
     sleeps tr = map (\<lambda>i. initial_wait * 2 ^ i) [0..<nat max_retries - 1] \<and>
     sum_list (sleeps tr) = initial_wait * (2 ^ (nat max_retries - 1) - 1) \<and>
     now w' = now w + sum_list (sleeps tr)"
proof -
  have w0: "0 \<le> initial_wait" using assms(2) by simp
  from assms(1,3) have "fails (outcome_of func (nat max_retries - 1) s)" by simp
  then obtain e where e: "outcome_of func (nat max_retries - 1) s = Raised e"
    by (cases "outcome_of func (nat max_retries - 1) s") simp_all
  have last: "sleeps [Invoke] = []" by (simp add: sleeps_def)
  show ?thesis
    using e
    by (simp add: retry_with_backoff_all_fail[OF assms(1) w0 assms(3)] sleeps_append
        sleeps_attempts visible_attempts sum_doubling last)
qed

theorem retry_backoff_three_tenths:
  "\<exists>s' w'. retry_with_backoff 3 (1/10) example_function (0, \<lparr>now = 0, trace = []\<rparr>) =
       (Raised (Exception ''Test error''), s', w') \<and>
     filter (\<lambda>ev. \<not> is_log ev) (trace w') = [Invoke, Sleep (1/10), Invoke, Sleep (2/10), Invoke] \<and>
     sleeps (trace w') = [1/10, 2/10] \<and>
     sum_list (sleeps (trace w')) = 3/10 \<and>
     now w' = 3/10"
proof -
  have h: "\<forall>i<nat 3. fails (outcome_of example_function i (0::nat))"
    by (simp add: example_function_outcome)
  have r: "fst (retry_with_backoff 3 (1/10) example_function (0, \<lparr>now = 0, trace = []\<rparr>)) =
      Raised (Exception ''Test error'')"
    by (simp add: retry_with_backoff_def py_range_def example_function_def upt_conv_Cons
        time_sleep_def emit_def advance_def)
  show ?thesis
    using retry_backoff_waits_double[of 3 "1/10" example_function 0 "\<lparr>now = 0, trace = []\<rparr>", OF _ _ h] r
    by (auto simp add: upt_conv_Cons)
qed

text \<open>
  Claim C9. With \<open>max_retries = 0\<close> the loop body never runs: the wrapper returns
  \<^verbatim>\<open>None\<close>, the operation is not invoked (its state and the trace are unchanged) and
  nothing is raised.
\<close>

theorem retry_zero_max_retries_returns_None: "retry_with_backoff 0 initial_wait func (s, w) = (Returned None, s, w)"
  by (simp add: retry_with_backoff_def py_range_def)

theorem retry_zero_max_retries_example:
  "retry_with_backoff 0 1 example_function (0, \<lparr>now = 0, trace = []\<rparr>) =
     (Returned None, 0, \<lparr>now = 0, trace = []\<rparr>)"
  using retry_zero_max_retries_returns_None[of 1 example_function 0 "\<lparr>now = 0, trace = []\<rparr>"] by simp

section \<open>Properties of RateLimiter\<close>

lemma wait_if_needed_cases:
  assumes "0 < requests_per_second self"
  shows "wait_if_needed self w =
     (if now w - window_start self \<ge> 1 then
        Inr (self\<lparr>window_start := now w, request_count := 1, last_request_time := now w\<rparr>, w)
      else if request_count self \<ge> requests_per_second self then
        Inr (self\<lparr>window_start := window_start self + 1, request_count := 1, last_request_time := now w\<rparr>,
             w\<lparr>now := window_start self + 1,
               trace := trace w @ [Log_debug (1 - (now w - window_start self)),
                                   Sleep (1 - (now w - window_start self))]\<rparr>)
      else
        Inr (self\<lparr>request_count := request_count self + 1, last_request_time := now w\<rparr>, w))"
  using assms
  by (auto simp add: wait_if_needed_def Let_def time_sleep_def emit_def advance_def)

lemma floor_window_step:
  fixes a b t0 :: real
  assumes "1 \<le> b - a"
  shows "\<lfloor>a - t0\<rfloor> + 1 \<le> \<lfloor>b - t0\<rfloor>"
proof -
  have "\<lfloor>a - t0\<rfloor> + 1 = \<lfloor>a - t0 + 1\<rfloor>" by simp
  also have "\<dots> \<le> \<lfloor>b - t0\<rfloor>" using assms by (intro floor_mono) simp
  finally show ?thesis .
qed

lemma budget_step:
  fixes B n c k k' :: int
  assumes "0 < B" "n - c \<le> B * k" "c \<le> B" "k + 1 \<le> k'"
  shows "n \<le> B * k'"
proof -
  have "B * (k + 1) \<le> B * k'" using assms(1,4) by (intro mult_left_mono) simp_all
  then show ?thesis using assms(2,3) by (simp add: algebra_simps)
qed

lemma wait_if_needed_inv:
  assumes B: "0 < B" and inv: "window_inv B t0 n self w" and d: "0 \<le> d"
  shows "\<exists>self' w' tr. wait_if_needed self (advance d w) = Inr (self', w') \<and>
     window_inv B t0 (Suc n) self' w' \<and>
     trace w' = trace w @ tr \<and> now w' = now w + d + sum_list (sleeps tr)"
proof -
  have rps: "0 < requests_per_second self" using B inv by (simp add: window_inv_def)
  note c = wait_if_needed_cases[OF rps, of "advance d w"]
  from inv have a: "int n - request_count self \<le> B * \<lfloor>window_start self - t0\<rfloor>"
    and b: "request_count self \<le> B" by (simp_all add: window_inv_def)
  consider (reset) "now w + d - window_start self \<ge> 1"
    | (full) "\<not> now w + d - window_start self \<ge> 1" "request_count self \<ge> requests_per_second self"
    | (room) "\<not> now w + d - window_start self \<ge> 1" "\<not> request_count self \<ge> requests_per_second self"
    by blast
  then show ?thesis
  proof cases
    case reset
    have "\<lfloor>window_start self - t0\<rfloor> + 1 \<le> \<lfloor>now w + d - t0\<rfloor>"
      using reset by (intro floor_window_step) simp
    then have "int n \<le> B * \<lfloor>now w + d - t0\<rfloor>"
      by (rule budget_step[OF B a b])
    then show ?thesis
      unfolding c using reset inv B d by (simp add: advance_def window_inv_def sleeps_def)
  next
    case full
    have "\<lfloor>window_start self - t0\<rfloor> + 1 \<le> \<lfloor>window_start self + 1 - t0\<rfloor>"
      by (intro floor_window_step) simp
    then have "int n \<le> B * \<lfloor>window_start self + 1 - t0\<rfloor>"
      by (rule budget_step[OF B a b])
    then show ?thesis
      unfolding c using full inv B d by (simp add: advance_def window_inv_def sleeps_def)
  next
    case room
    show ?thesis
      unfolding c using room inv B d by (simp add: advance_def window_inv_def sleeps_def)
  qed
qed

lemma acquire_all_inv:
  assumes "0 < B" and "window_inv B t0 n self w" and "\<forall>d\<in>set ds. 0 \<le> d"
  shows "\<exists>self' w' tr. acquire_all ds (self, w) = Inr (self', w') \<and>
     window_inv B t0 (n + length ds) self' w' \<and>
     trace w' = trace w @ tr \<and> now w' = now w + sum_list ds + sum_list (sleeps tr)"
  using assms
proof (induction ds arbitrary: n self w)
  case Nil
  then show ?case by (simp add: sleeps_def)
next
  case (Cons d ds)
  from Cons.prems have d: "0 \<le> d" and rest: "\<forall>x\<in>set ds. 0 \<le> x" by simp_all
  from wait_if_needed_inv[OF Cons.prems(1,2) d]
  obtain self1 w1 tr1 where 1: "wait_if_needed self (advance d w) = Inr (self1, w1)"
    "window_inv B t0 (Suc n) self1 w1" "trace w1 = trace w @ tr1"
    "now w1 = now w + d + sum_list (sleeps tr1)" by blast
  from Cons.IH[OF Cons.prems(1) 1(2) rest]
  obtain self2 w2 tr2 where 2: "acquire_all ds (self1, w1) = Inr (self2, w2)"
    "window_inv B t0 (Suc n + length ds) self2 w2" "trace w2 = trace w1 @ tr2"
    "now w2 = now w1 + sum_list ds + sum_list (sleeps tr2)" by blast
  have "acquire_all (d # ds) (self, w) = Inr (self2, w2)" by (simp add: 1(1) 2(1))
  moreover have "trace w2 = trace w @ (tr1 @ tr2)" by (simp add: 1(3) 2(3))
  moreover have "now w2 = now w + sum_list (d # ds) + sum_list (sleeps (tr1 @ tr2))"
    by (simp add: 1(4) 2(4) sleeps_def)
  moreover have "window_inv B t0 (n + length (d # ds)) self2 w2" using 2(2) by simp
  ultimately show ?case by blast
qed

lemma windows_bound:
  fixes B k :: int and N :: nat
  assumes "0 < B" "int N - c \<le> B * k" "c \<le> B"
  shows "\<lfloor>(real N - 1) / real_of_int B\<rfloor> \<le> k"
proof -
  have "(real N - 1) / real_of_int B = real_of_int (int N - 1) / real_of_int B" by simp
  then have "\<lfloor>(real N - 1) / real_of_int B\<rfloor> = (int N - 1) div B"
    by (simp only: floor_divide_of_int_eq)
  also have "(int N - 1) div B \<le> (B * k + (B - 1)) div B"
    using assms by (intro zdiv_mono1) simp_all
  also have "(B * k + (B - 1)) div B = k" using assms(1) by simp
  finally show ?thesis .
qed

text \<open>
  Claim C2. On a fresh limiter with budget \<open>B > 0\<close>, \<open>N > 0\<close> consecutive calls, with any
  non-negative time passing before each of them, all return, and the time elapsed since the
  limiter was created, which is the time that passed between the calls plus the sleeps
  performed, is at least \<open>floor ((N - 1) / B)\<close> seconds. 20 calls at budget 10 take at
  least 1 second.
\<close>

theorem rate_limiter_elapsed_lower_bound:
  assumes "0 < B" and "ds \<noteq> []" and "\<forall>d\<in>set ds. 0 \<le> d"
  shows "\<exists>self' w' tr.
     acquire_all ds (RateLimiter_init B w, w) = Inr (self', w') \<and>
     trace w' = trace w @ tr \<and>
     now w' - now w = sum_list ds + sum_list (sleeps tr) \<and>
     of_int \<lfloor>(real (length ds) - 1) / real_of_int B\<rfloor> \<le> now w' - now w"
proof -
  have init: "window_inv B (now w) 0 (RateLimiter_init B w) w"
    using assms(1) by (simp add: window_inv_def RateLimiter_init_def)
  from acquire_all_inv[OF assms(1) init assms(3)]
  obtain self' w' tr where r: "acquire_all ds (RateLimiter_init B w, w) = Inr (self', w')"
    "window_inv B (now w) (length ds) self' w'" "trace w' = trace w @ tr"
    "now w' = now w + sum_list ds + sum_list (sleeps tr)" by auto
  have "\<lfloor>(real (length ds) - 1) / real_of_int B\<rfloor> \<le> \<lfloor>window_start self' - now w\<rfloor>"
    using windows_bound[OF assms(1), of "length ds" "request_count self'"] r(2)
    by (simp add: window_inv_def)
  then have "real_of_int \<lfloor>(real (length ds) - 1) / real_of_int B\<rfloor> \<le> real_of_int \<lfloor>window_start self' - now w\<rfloor>"
    by simp
  also have "\<dots> \<le> window_start self' - now w" by simp
  also have "\<dots> \<le> now w' - now w" using r(2) by (simp add: window_inv_def)
  finally show ?thesis using r(1,3,4) by simp
qed

theorem rate_limiter_twenty_calls_budget_ten:
  "\<exists>self' w'. acquire_all (replicate 20 0) (RateLimiter_init 10 \<lparr>now = 0, trace = []\<rparr>, \<lparr>now = 0, trace = []\<rparr>)
       = Inr (self', w') \<and> 1 \<le> now w'"
  using rate_limiter_elapsed_lower_bound[of 10 "replicate 20 0" "\<lparr>now = 0, trace = []\<rparr>"]
  by auto

lemma wait_if_needed_within_budget:
  assumes "0 < requests_per_second self"
  shows "\<exists>self' w'. wait_if_needed self w = Inr (self', w') \<and>
     requests_per_second self' = requests_per_second self \<and>
     request_count self' \<le> requests_per_second self"
  unfolding wait_if_needed_cases[OF assms] using assms by simp

lemma acquire_all_within_budget:
  assumes "0 < requests_per_second self"
  shows "\<exists>self' w'. acquire_all ds (self, w) = Inr (self', w') \<and>
     requests_per_second self' = requests_per_second self \<and>
     (if ds = [] then self' = self else request_count self' \<le> requests_per_second self)"
  using assms
proof (induction ds arbitrary: self w)
  case Nil
  then show ?case by simp
next
  case (Cons d ds)
  from wait_if_needed_within_budget[OF Cons.prems, of "advance d w"]
  obtain self1 w1 where 1: "wait_if_needed self (advance d w) = Inr (self1, w1)"
    "requests_per_second self1 = requests_per_second self"
    "request_count self1 \<le> requests_per_second self"
    by blast
  from Cons.prems 1(2) have "0 < requests_per_second self1" by simp
  from Cons.IH[OF this, of w1] 1 show ?case
    by (auto split: if_splits)
qed

text \<open>
  Claim C5. With a budget \<open>B > 0\<close>, \<open>request_count\<close> is at most \<open>B\<close> on a fresh limiter
  and after every call of \<^verbatim>\<open>wait_if_needed\<close>, from any state and after any non-empty
  sequence of calls, and no call raises. A call made a second or more after
  \<open>window_start\<close> resets the window to the current time and the count to 0 before it counts
  the request; a call that finds the count at the budget inside the window logs, sleeps
  until \<open>window_start + 1\<close>, resets the window to the time after the sleep and the count to
  0, and counts the request; any other call only counts the request.
\<close>

theorem rate_limiter_count_within_budget:
  assumes "0 < requests_per_second self"
  shows "request_count (RateLimiter_init (requests_per_second self) w) \<le> requests_per_second self \<and>
    (\<exists>self' w'. wait_if_needed self w = Inr (self', w') \<and>
       requests_per_second self' = requests_per_second self \<and>
       request_count self' \<le> requests_per_second self \<and>
       (if now w - window_start self \<ge> 1 then
          window_start self' = now w \<and> request_count self' = 0 + 1 \<and> w' = w
        else if request_count self \<ge> requests_per_second self then
          trace w' = trace w @ [Log_debug (window_start self + 1 - now w),
                                Sleep (window_start self + 1 - now w)] \<and>
          now w' = window_start self + 1 \<and>
          window_start self' = now w' \<and> request_count self' = 0 + 1
        else
          window_start self' = window_start self \<and>
          request_count self' = request_count self + 1 \<and> w' = w)) \<and>
    (\<forall>ds. ds \<noteq> [] \<longrightarrow>
       (\<exists>self' w'. acquire_all ds (self, w) = Inr (self', w') \<and>
          request_count self' \<le> requests_per_second self))"
proof -
  have "request_count (RateLimiter_init (requests_per_second self) w) \<le> requests_per_second self"
    using assms by (simp add: RateLimiter_init_def)
  moreover have "\<exists>self' w'. wait_if_needed self w = Inr (self', w') \<and>
       requests_per_second self' = requests_per_second self \<and>
       request_count self' \<le> requests_per_second self \<and>
       (if now w - window_start self \<ge> 1 then
          window_start self' = now w \<and> request_count self' = 0 + 1 \<and> w' = w
        else if request_count self \<ge> requests_per_second self then
          trace w' = trace w @ [Log_debug (window_start self + 1 - now w),
                                Sleep (window_start self + 1 - now w)] \<and>
          now w' = window_start self + 1 \<and>
          window_start self' = now w' \<and> request_count self' = 0 + 1
        else
          window_start self' = window_start self \<and>
          request_count self' = request_count self + 1 \<and> w' = w)"
    unfolding wait_if_needed_cases[OF assms] using assms by (simp add: algebra_simps)
  moreover have "\<forall>ds. ds \<noteq> [] \<longrightarrow>
       (\<exists>self' w'. acquire_all ds (self, w) = Inr (self', w') \<and>
          request_count self' \<le> requests_per_second self)"
  proof (intro allI impI)
    fix ds :: "real list" assume "ds \<noteq> []"
    with acquire_all_within_budget[OF assms, of ds w]
    show "\<exists>self' w'. acquire_all ds (self, w) = Inr (self', w') \<and>
          request_count self' \<le> requests_per_second self" by auto
  qed
  ultimately show ?thesis by blast
qed

theorem rate_limiter_full_window_example:
  "wait_if_needed \<lparr>requests_per_second = 2, last_request_time = 1/4, request_count = 2, window_start = 0\<rparr>
       \<lparr>now = 1/4, trace = []\<rparr> =
     Inr (\<lparr>requests_per_second = 2, last_request_time = 1/4, request_count = 1, window_start = 1\<rparr>,
          \<lparr>now = 1, trace = [Log_debug (3/4), Sleep (3/4)]\<rparr>)"
  using rate_limiter_count_within_budget[of
      "\<lparr>requests_per_second = 2, last_request_time = 1/4, request_count = 2, window_start = 0\<rparr>"
      "\<lparr>now = 1/4, trace = []\<rparr>"]
  by (simp add: wait_if_needed_def Let_def time_sleep_def emit_def advance_def)

section \<open>Properties of CacheManager\<close>

lemmas cache_defs = CacheManager_get_def get_file_cache_def get_try_block_def CacheManager_set_def
  write_json_def read_json_def file_exists_def unlink_def emit_def advance_def Let_def

lemma get_returns_fresh:
  assumes "CacheManager_get key self = (Inr (Some v), self')"
  shows "(\<exists>data. map_of (memory_cache self) key = Some data \<and> val data = Some v \<and>
            now self - timestamp data \<le> ttl self) \<or>
         (\<exists>ts. map_of (files self) key = Some (Json (Some ts) (Some v)) \<and> now self - ts \<le> ttl self)"
  using assms
  by (auto simp add: cache_defs split: option.splits if_splits content.splits sum.splits prod.splits)

lemma get_all_expired:
  assumes "\<forall>data. map_of (memory_cache self) key = Some data \<longrightarrow> now self - timestamp data > ttl self"
    and "\<forall>c. map_of (files self) key = Some c \<longrightarrow> (\<exists>ts v. c = Json (Some ts) v \<and> now self - ts > ttl self)"
  shows "\<exists>self'. CacheManager_get key self = (Inr None, self') \<and>
           map_of (memory_cache self') key = None \<and> map_of (files self') key = None"
proof (cases "map_of (files self) key")
  case None
  then show ?thesis using assms(1)
    by (auto simp add: cache_defs delete_conv' split: option.splits)
next
  case (Some c)
  with assms(2) obtain ts v where c: "c = Json (Some ts) v" "now self - ts > ttl self" by blast
  show ?thesis using assms(1) Some c
    by (auto simp add: cache_defs delete_conv' split: option.splits)
qed

lemma set_then_get_after_ttl:
  assumes "disk self key v \<noteq> Open_failed" and "d > ttl self"
  shows "fst (CacheManager_get key (advance d (snd (CacheManager_set key v self)))) = Inr None"
  using assms
  by (cases "disk self key v") (simp_all add: cache_defs update_conv' delete_conv')

lemma set_then_get:
  assumes "d \<le> ttl self"
  shows "fst (CacheManager_get key (advance d (snd (CacheManager_set key v self)))) = Inr (Some v)"
  using assms
  by (cases "disk self key v") (simp_all add: cache_defs update_conv')

lemma get_read_error_is_miss:
  assumes "\<forall>data. map_of (memory_cache self) key = Some data \<longrightarrow> \<not> now self - timestamp data \<le> ttl self"
    and "map_of (files self) key = Some c"
    and "c = Unreadable \<or> (\<exists>v. c = Json None v)"
  shows "\<exists>self'. CacheManager_get key self = (Inr None, self') \<and>
           trace self' = trace self @ [Log_error key] \<and> files self' = files self"
  using assms
  by (auto simp add: cache_defs split: option.splits)

lemma set_write_error:
  assumes "disk self key v \<noteq> Written"
  shows "\<exists>self'. CacheManager_set key v self = (Inr (), self') \<and>
           map_of (memory_cache self') key = Some \<lparr>timestamp = now self, val = Some v\<rparr> \<and>
           trace self' = trace self @ [Log_error key]"
  using assms
  by (cases "disk self key v") (simp_all add: cache_defs update_conv')

lemma get_valueless_record_is_miss:
  assumes "\<forall>data. map_of (memory_cache self) key = Some data \<longrightarrow> \<not> now self - timestamp data \<le> ttl self"
    and "map_of (files self) key = Some (Json (Some ts) None)" and "now self - ts \<le> ttl self"
  shows "\<exists>self'. CacheManager_get key self = (Inr None, self') \<and>
           trace self' = trace self @ [Log_error key] \<and> files self' = files self"
  using assms
  by (auto simp add: cache_defs split: option.splits)

lemma cleanup_file_fields:
  "ttl (cleanup_file t n self) = ttl self"
  "now (cleanup_file t n self) = now self"
  "memory_cache (cleanup_file t n self) = memory_cache self"
  "disk (cleanup_file t n self) = disk self"
  by (simp_all add: cleanup_file_def emit_def split: sum.splits option.splits prod.splits)

lemma cleanup_file_map_of:
  "map_of (files (cleanup_file t n self)) k =
     (if k = n \<and> expired_record t (ttl self) (map_of (files self) n) then None
      else map_of (files self) k)"
proof (cases "map_of (files self) n")
  case None
  then show ?thesis by (simp add: cleanup_file_def read_json_def emit_def)
next
  case (Some c)
  show ?thesis
  proof (cases c)
    case Inaccessible
    with Some show ?thesis by (simp add: cleanup_file_def read_json_def emit_def)
  next
    case Unreadable
    with Some show ?thesis by (simp add: cleanup_file_def read_json_def emit_def)
  next
    case (Json ts_field val_field)
    with Some show ?thesis
      by (cases ts_field)
        (auto simp add: cleanup_file_def read_json_def emit_def unlink_def delete_conv')
  qed
qed

lemma cleanup_file_trace:
  "trace (cleanup_file t n self) =
     trace self @ (if map_of (files self) n = None \<or> unreadable_record (map_of (files self) n)
                   then [Log_error n] else [])"
proof (cases "map_of (files self) n")
  case None
  then show ?thesis by (simp add: cleanup_file_def read_json_def emit_def)
next
  case (Some c)
  show ?thesis
  proof (cases c)
    case Inaccessible
    with Some show ?thesis by (simp add: cleanup_file_def read_json_def emit_def)
  next
    case Unreadable
    with Some show ?thesis by (simp add: cleanup_file_def read_json_def emit_def)
  next
    case (Json ts_field val_field)
    with Some show ?thesis
      by (cases ts_field) (auto simp add: cleanup_file_def read_json_def emit_def)
  qed
qed

lemma cleanup_fold_fields:
  "ttl (fold (cleanup_file t) ns self) = ttl self \<and>
   now (fold (cleanup_file t) ns self) = now self \<and>
   memory_cache (fold (cleanup_file t) ns self) = memory_cache self \<and>
   disk (fold (cleanup_file t) ns self) = disk self"
  by (induction ns arbitrary: self) (simp_all add: cleanup_file_fields)

lemma cleanup_fold_map_of:
  "map_of (files (fold (cleanup_file t) ns self)) k =
     (if k \<in> set ns \<and> expired_record t (ttl self) (map_of (files self) k) then None
      else map_of (files self) k)"
proof (induction ns arbitrary: self)
  case Nil
  then show ?case by simp
next
  case (Cons n ns)
  have "map_of (files (fold (cleanup_file t) (n # ns) self)) k =
      map_of (files (fold (cleanup_file t) ns (cleanup_file t n self))) k" by simp
  also note Cons.IH[of "cleanup_file t n self"]
  finally show ?case
    by (auto simp add: cleanup_file_fields cleanup_file_map_of)
qed

lemma cleanup_fold_trace:
  "\<exists>tr. trace (fold (cleanup_file t) ns self) = trace self @ tr \<and>
     (\<forall>k\<in>set ns. unreadable_record (map_of (files self) k) \<longrightarrow> Log_error k \<in> set tr)"
proof (induction ns arbitrary: self)
  case Nil
  then show ?case by simp
next
  case (Cons n ns)
  define self1 where "self1 = cleanup_file t n self"
  from Cons.IH[of self1] obtain tr2 where
    2: "trace (fold (cleanup_file t) ns self1) = trace self1 @ tr2"
       "\<forall>k\<in>set ns. unreadable_record (map_of (files self1) k) \<longrightarrow> Log_error k \<in> set tr2"
    by blast
  define tr1 where "tr1 = (if map_of (files self) n = None \<or> unreadable_record (map_of (files self) n)
                   then [Log_error n] else [])"
  have 1: "trace self1 = trace self @ tr1"
    by (simp add: self1_def tr1_def cleanup_file_trace)
  have "trace (fold (cleanup_file t) (n # ns) self) = trace self @ (tr1 @ tr2)"
    by (simp add: 1 2(1) self1_def[symmetric])
  moreover have "\<forall>k\<in>set (n # ns). unreadable_record (map_of (files self) k) \<longrightarrow> Log_error k \<in> set (tr1 @ tr2)"
  proof (intro ballI impI)
    fix k assume k: "k \<in> set (n # ns)" and u: "unreadable_record (map_of (files self) k)"
    show "Log_error k \<in> set (tr1 @ tr2)"
    proof (cases "k = n")
      case True
      with u show ?thesis by (simp add: tr1_def)
    next
      case False
      with k have "k \<in> set ns" by simp
      moreover have "map_of (files self1) k = map_of (files self) k"
        using False by (simp add: self1_def cleanup_file_map_of)
      ultimately show ?thesis using 2(2) u by simp
    qed
  qed
  ultimately show ?case by blast
qed

lemma fold_delete_map_of:
  "map_of (fold AList.delete ks al) k = (if k \<in> set ks then None else map_of al k)"
  by (induction ks arbitrary: al) (simp_all add: delete_conv')

lemma dict_items_iff: "(k, d) \<in> set (dict_items al) \<longleftrightarrow> map_of al k = Some d"
proof -
  have "(k, d) \<in> set (AList.clearjunk al) \<longleftrightarrow> map_of (AList.clearjunk al) k = Some d"
    by (simp add: distinct_clearjunk)
  then show ?thesis by (simp add: dict_items_def map_of_clearjunk)
qed

lemma glob_json_iff: "k \<in> set (glob_json dir) \<longleftrightarrow> map_of dir k \<noteq> None"
proof -
  have "k \<in> set (glob_json dir) \<longleftrightarrow> (\<exists>c. (k, c) \<in> set (dict_items dir))"
    by (force simp add: glob_json_def)
  then show ?thesis by (simp add: dict_items_iff)
qed

lemma cleanup_memory:
  "map_of (memory_cache (snd (CacheManager_cleanup_expired self))) k =
     (case map_of (memory_cache self) k of
        None \<Rightarrow> None
      | Some data \<Rightarrow> if now self - timestamp data > ttl self then None else Some data)"
proof -
  have "k \<in> set (map fst (filter (\<lambda>(key, data). now self - timestamp data > ttl self)
                       (dict_items (memory_cache self))))
        \<longleftrightarrow> (\<exists>data. map_of (memory_cache self) k = Some data \<and> now self - timestamp data > ttl self)"
    by (force simp add: dict_items_iff)
  then show ?thesis
    by (auto simp add: CacheManager_cleanup_expired_def Let_def cleanup_fold_fields fold_delete_map_of
        split: option.splits)
qed

lemma cleanup_files:
  "map_of (files (snd (CacheManager_cleanup_expired self))) k =
     (if expired_record (now self) (ttl self) (map_of (files self) k) then None
      else map_of (files self) k)"
proof -
  have "expired_record (now self) (ttl self) (map_of (files self) k) \<Longrightarrow> map_of (files self) k \<noteq> None"
    by (cases "map_of (files self) k") simp_all
  then show ?thesis
    by (auto simp add: CacheManager_cleanup_expired_def Let_def cleanup_fold_map_of glob_json_iff)
qed

lemma cleanup_trace:
  "\<exists>tr. trace (snd (CacheManager_cleanup_expired self)) = trace self @ tr \<and>
     (\<forall>k. unreadable_record (map_of (files self) k) \<longrightarrow> Log_error k \<in> set tr)"
proof -
  define self1 where "self1 =
    self\<lparr>memory_cache := fold AList.delete (map fst (filter (\<lambda>(key, data). now self - timestamp data > ttl self)
                                    (dict_items (memory_cache self)))) (memory_cache self)\<rparr>"
  have s1: "files self1 = files self" "trace self1 = trace self" by (simp_all add: self1_def)
  from cleanup_fold_trace[of "now self" "glob_json (files self1)" self1]
  obtain tr where tr: "trace (fold (cleanup_file (now self)) (glob_json (files self1)) self1) = trace self1 @ tr"
    "\<forall>k\<in>set (glob_json (files self1)). unreadable_record (map_of (files self1) k) \<longrightarrow> Log_error k \<in> set tr"
    by blast
  have "unreadable_record (map_of (files self) k) \<Longrightarrow> k \<in> set (glob_json (files self))" for k
    by (cases "map_of (files self) k") (simp_all add: glob_json_iff)
  with tr(2) have "\<forall>k. unreadable_record (map_of (files self) k) \<longrightarrow> Log_error k \<in> set tr"
    by (auto simp add: s1)
  moreover have "trace (snd (CacheManager_cleanup_expired self)) = trace self @ tr"
    using tr(1) by (simp add: CacheManager_cleanup_expired_def Let_def self1_def[symmetric] s1)
  ultimately show ?thesis by blast
qed

lemma cleanup_returns:
  "fst (CacheManager_cleanup_expired self) = Inr () \<and>
   ttl (snd (CacheManager_cleanup_expired self)) = ttl self \<and>
   now (snd (CacheManager_cleanup_expired self)) = now self"
  by (simp add: CacheManager_cleanup_expired_def Let_def cleanup_fold_fields)

lemma cleanup_scenario:
  assumes "ttl c0 = 1" and "k1 \<noteq> k2" and "disk c0 k1 v1 = Written" and "disk c0 k2 v2 = Written"
    and "1 \<le> d"
  defines "c2 \<equiv> snd (CacheManager_set k2 v2 (advance (1/2) (snd (CacheManager_set k1 v1 c0))))"
  defines "c3 \<equiv> snd (CacheManager_cleanup_expired (advance d c2))"
  shows "map_of (memory_cache c3) k1 = None \<and> map_of (files c3) k1 = None \<and>
     (if d \<le> 1
      then map_of (memory_cache c3) k2 = Some \<lparr>timestamp = now c0 + 1/2, val = Some v2\<rparr> \<and>
           map_of (files c3) k2 = Some (Json (Some (now c0 + 1/2)) (Some v2))
      else map_of (memory_cache c3) k2 = None \<and> map_of (files c3) k2 = None)"
proof -
  have m: "map_of (memory_cache (advance d c2)) k1 = Some \<lparr>timestamp = now c0, val = Some v1\<rparr>"
      "map_of (memory_cache (advance d c2)) k2 = Some \<lparr>timestamp = now c0 + 1/2, val = Some v2\<rparr>"
    and f: "map_of (files (advance d c2)) k1 = Some (Json (Some (now c0)) (Some v1))"
      "map_of (files (advance d c2)) k2 = Some (Json (Some (now c0 + 1/2)) (Some v2))"
    and t: "now (advance d c2) = now c0 + 1/2 + d" "ttl (advance d c2) = 1"
    using assms(1-4) by (simp_all add: c2_def cache_defs update_conv')
  show ?thesis
    unfolding c3_def cleanup_memory cleanup_files m f t using assms(5) by simp
qed

text \<open>
  Claim C8. \<^verbatim>\<open>cleanup_expired\<close> returns, and in both tiers it removes every entry
  it can date whose age exceeds the time to live and keeps, unchanged, every entry whose
  age is at most the time to live. With a time to live of 1 second, an entry set at
  \<open>t0\<close> and another set at \<open>t0 + 0.5\<close>, a cleanup at \<open>t0 + 0.5 + d\<close> with \<open>d \<ge> 1\<close>
  removes the first from both tiers; the second is in both tiers afterwards when its age
  \<open>d\<close> is still at most 1, and in neither otherwise.
\<close>

theorem cleanup_expired_selective:
  "(\<exists>self'. CacheManager_cleanup_expired self = (Inr (), self') \<and>
      (\<forall>k data. map_of (memory_cache self) k = Some data \<longrightarrow>
         map_of (memory_cache self') k = (if now self - timestamp data > ttl self then None else Some data)) \<and>
      (\<forall>k ts v. map_of (files self) k = Some (Json (Some ts) v) \<longrightarrow>
         map_of (files self') k = (if now self - ts > ttl self then None else Some (Json (Some ts) v)))) \<and>
   (ttl c0 = 1 \<and> k1 \<noteq> k2 \<and> disk c0 k1 v1 = Written \<and> disk c0 k2 v2 = Written \<and> 1 \<le> d \<longrightarrow>
      (let c1 = snd (CacheManager_set k1 v1 c0);
           c2 = snd (CacheManager_set k2 v2 (advance (1/2) c1));
           c3 = snd (CacheManager_cleanup_expired (advance d c2))
       in map_of (memory_cache c3) k1 = None \<and> map_of (files c3) k1 = None \<and>
          (if d \<le> 1
           then map_of (memory_cache c3) k2 = Some \<lparr>timestamp = now c0 + 1/2, val = Some v2\<rparr> \<and>
                map_of (files c3) k2 = Some (Json (Some (now c0 + 1/2)) (Some v2))
           else map_of (memory_cache c3) k2 = None \<and> map_of (files c3) k2 = None)))"
proof (intro conjI impI)
  have "CacheManager_cleanup_expired self = (Inr (), snd (CacheManager_cleanup_expired self))"
    by (simp add: prod_eq_iff cleanup_returns)
  then show "\<exists>self'. CacheManager_cleanup_expired self = (Inr (), self') \<and>
      (\<forall>k data. map_of (memory_cache self) k = Some data \<longrightarrow>
         map_of (memory_cache self') k = (if now self - timestamp data > ttl self then None else Some data)) \<and>
      (\<forall>k ts v. map_of (files self) k = Some (Json (Some ts) v) \<longrightarrow>
         map_of (files self') k = (if now self - ts > ttl self then None else Some (Json (Some ts) v)))"
    by (intro exI[of _ "snd (CacheManager_cleanup_expired self)"]) (simp add: cleanup_memory cleanup_files)
next
  assume "ttl c0 = 1 \<and> k1 \<noteq> k2 \<and> disk c0 k1 v1 = Written \<and> disk c0 k2 v2 = Written \<and> 1 \<le> d"
  then have a: "ttl c0 = 1" "k1 \<noteq> k2" "disk c0 k1 v1 = Written" "disk c0 k2 v2 = Written" "1 \<le> d"
    by simp_all
  show "let c1 = snd (CacheManager_set k1 v1 c0);
           c2 = snd (CacheManager_set k2 v2 (advance (1/2) c1));
           c3 = snd (CacheManager_cleanup_expired (advance d c2))
       in map_of (memory_cache c3) k1 = None \<and> map_of (files c3) k1 = None \<and>
          (if d \<le> 1
           then map_of (memory_cache c3) k2 = Some \<lparr>timestamp = now c0 + 1/2, val = Some v2\<rparr> \<and>
                map_of (files c3) k2 = Some (Json (Some (now c0 + 1/2)) (Some v2))
           else map_of (memory_cache c3) k2 = None \<and> map_of (files c3) k2 = None)"
    unfolding Let_def by (rule cleanup_scenario[OF a])
qed

theorem cleanup_expired_two_entries_example:
  "map_of (memory_cache two_sets_then_cleanup) ''old'' = None \<and>
   map_of (files two_sets_then_cleanup) ''old'' = None \<and>
   map_of (memory_cache two_sets_then_cleanup) ''new'' = Some \<lparr>timestamp = 1/2, val = Some 2\<rparr> \<and>
   map_of (files two_sets_then_cleanup) ''new'' = Some (Json (Some (1/2)) (Some 2))"
  using cleanup_expired_selective[of "fresh_cache 1 [] 0" "fresh_cache 1 [] 0" "''old''" "''new''" 1 2 1]
  by (simp add: two_sets_then_cleanup_def fresh_cache_def CacheManager_init_def Let_def)

text \<open>
  Claim C10. \<^verbatim>\<open>cleanup_expired\<close> returns without raising and never removes a file
  that cannot be read or parsed, or whose record has no numeric timestamp: the file is
  as before and an error naming it is logged. A file that is gone after the cleanup held
  a record with a timestamp older than the time to live.
\<close>

theorem cleanup_expired_keeps_unreadable_files:
  "\<exists>self' tr. CacheManager_cleanup_expired self = (Inr (), self') \<and>
     trace self' = trace self @ tr \<and>
     (\<forall>k c. map_of (files self) k = Some c \<and> (c = Unreadable \<or> (\<exists>v. c = Json None v)) \<longrightarrow>
        map_of (files self') k = Some c \<and> Log_error k \<in> set tr) \<and>
     (\<forall>k c. map_of (files self) k = Some c \<and> map_of (files self') k = None \<longrightarrow>
        (\<exists>ts v. c = Json (Some ts) v \<and> now self - ts > ttl self))"
proof -
  from cleanup_trace[of self] obtain tr where
    tr: "trace (snd (CacheManager_cleanup_expired self)) = trace self @ tr"
      "\<forall>k. unreadable_record (map_of (files self) k) \<longrightarrow> Log_error k \<in> set tr" by blast
  have r: "CacheManager_cleanup_expired self = (Inr (), snd (CacheManager_cleanup_expired self))"
    by (simp add: prod_eq_iff cleanup_returns)
  have keep: "\<forall>k c. map_of (files self) k = Some c \<and> (c = Unreadable \<or> (\<exists>v. c = Json None v)) \<longrightarrow>
        map_of (files (snd (CacheManager_cleanup_expired self))) k = Some c \<and> Log_error k \<in> set tr"
    using tr(2) by (auto simp add: cleanup_files)
  have only: "\<forall>k c. map_of (files self) k = Some c \<and>
        map_of (files (snd (CacheManager_cleanup_expired self))) k = None \<longrightarrow>
        (\<exists>ts v. c = Json (Some ts) v \<and> now self - ts > ttl self)"
  proof (intro allI impI)
    fix k c
    assume a: "map_of (files self) k = Some c \<and>
        map_of (files (snd (CacheManager_cleanup_expired self))) k = None"
    then have "expired_record (now self) (ttl self) (Some c)"
      by (auto simp add: cleanup_files split: if_splits)
    then show "\<exists>ts v. c = Json (Some ts) v \<and> now self - ts > ttl self"
      by (cases "(now self, ttl self, Some c)" rule: expired_record.cases) simp_all
  qed
  show ?thesis
    using r tr(1) keep only by blast
qed

theorem cleanup_expired_corrupt_dir_example:
  "map_of (files (snd (CacheManager_cleanup_expired (fresh_cache 1 corrupt_dir 5)))) ''bad'' = Some Unreadable \<and>
   map_of (files (snd (CacheManager_cleanup_expired (fresh_cache 1 corrupt_dir 5)))) ''partial'' = Some (Json None (Some 1)) \<and>
   map_of (files (snd (CacheManager_cleanup_expired (fresh_cache 1 corrupt_dir 5)))) ''stale'' = None \<and>
   trace (snd (CacheManager_cleanup_expired (fresh_cache 1 corrupt_dir 5))) = [Log_error ''bad'', Log_error ''partial'']"
  using cleanup_expired_keeps_unreadable_files[of "fresh_cache 1 corrupt_dir 5"]
  by (simp add: fresh_cache_def corrupt_dir_def CacheManager_init_def CacheManager_cleanup_expired_def Let_def
      dict_items_def glob_json_def cleanup_file_def read_json_def unlink_def emit_def)

text \<open>
  A record in date that lacks its payload is stored in the memory tier before the read of
  the payload raises; the call that read the file returns \<^verbatim>\<open>None\<close>, and the next
  \<^verbatim>\<open>get\<close> of the key finds the entry in memory and raises \<^verbatim>\<open>KeyError\<close>.
  The cache writes no such record itself.
\<close>

lemma get_again_after_valueless_record:
  assumes "map_of (memory_cache self) key = None"
    and "map_of (files self) key = Some (Json (Some ts) None)" and "now self - ts \<le> ttl self"
  shows "fst (CacheManager_get key self) = Inr None \<and>
         fst (CacheManager_get key (snd (CacheManager_get key self))) = Inl (KeyError ''value'')"
  using assms by (simp add: cache_defs update_conv')

text \<open>
  Claim C4. \<^verbatim>\<open>get\<close> never returns an expired entry: when it returns a payload, an
  entry of the key with that payload is stored, in the memory tier or in the key's file,
  and its age at the time of the call is at most the time to live. When every stored
  entry of the key is older than the time to live (the memory entry if there is one, the
  file's record if there is a file), \<^verbatim>\<open>get\<close> returns \<^verbatim>\<open>None\<close> and the key is
  left in neither tier. After a \<^verbatim>\<open>set\<close> whose write reached the file and a delay
  longer than the time to live, \<^verbatim>\<open>get\<close> returns \<^verbatim>\<open>None\<close>: so it does with a
  time to live of 1 second and a delay of 1.1 seconds.
\<close>

theorem cache_get_never_returns_expired:
  "(CacheManager_get key self = (Inr (Some v), self') \<longrightarrow>
      (\<exists>data. map_of (memory_cache self) key = Some data \<and> val data = Some v \<and>
          now self - timestamp data \<le> ttl self) \<or>
      (\<exists>ts. map_of (files self) key = Some (Json (Some ts) (Some v)) \<and> now self - ts \<le> ttl self)) \<and>
   ((\<forall>data. map_of (memory_cache self) key = Some data \<longrightarrow> now self - timestamp data > ttl self) \<and>
    (\<forall>c. map_of (files self) key = Some c \<longrightarrow> (\<exists>ts x. c = Json (Some ts) x \<and> now self - ts > ttl self)) \<longrightarrow>
      (\<exists>s'. CacheManager_get key self = (Inr None, s') \<and>
          map_of (memory_cache s') key = None \<and> map_of (files s') key = None)) \<and>
   (disk c0 key v \<noteq> Open_failed \<and> d > ttl c0 \<longrightarrow>
      fst (CacheManager_get key (advance d (snd (CacheManager_set key v c0)))) = Inr None)"
  using get_returns_fresh[of key self v self'] get_all_expired[of self key]
    set_then_get_after_ttl[of c0 key v d]
  by blast

theorem cache_get_after_ttl_example:
  "fst (CacheManager_get ''k'' (advance (11/10) (snd (CacheManager_set ''k'' 7 (fresh_cache 1 [] 0))))) = Inr None \<and>
   map_of (memory_cache (snd (CacheManager_get ''k'' (advance (11/10) (snd (CacheManager_set ''k'' 7 (fresh_cache 1 [] 0))))))) ''k'' = None \<and>
   map_of (files (snd (CacheManager_get ''k'' (advance (11/10) (snd (CacheManager_set ''k'' 7 (fresh_cache 1 [] 0))))))) ''k'' = None \<and>
   CacheManager_get ''k'' (snd (CacheManager_set ''k'' 7 (fresh_cache 1 [] 0))) =
     (Inr (Some 7), snd (CacheManager_set ''k'' 7 (fresh_cache 1 [] 0)))"
  using cache_get_never_returns_expired[of "''k''" "advance (11/10) (snd (CacheManager_set ''k'' 7 (fresh_cache 1 [] 0)))" 7
      "snd (CacheManager_set ''k'' 7 (fresh_cache 1 [] 0))" "fresh_cache 1 [] 0" "11/10"]
  by (simp add: fresh_cache_def CacheManager_init_def cache_defs)

text \<open>
  Claim C6. \<^verbatim>\<open>set(k, v)\<close> returns, and a \<^verbatim>\<open>get(k)\<close> that follows it after a
  time \<open>d\<close> of at most the time to live returns \<open>v\<close>, whatever the write to the file
  did. With a positive time to live this holds for \<open>d = 0\<close>, the immediate \<^verbatim>\<open>get\<close>.
\<close>

theorem cache_set_get_round_trip:
  assumes "d \<le> ttl self"
  shows "fst (CacheManager_set key v self) = Inr () \<and>
     fst (CacheManager_get key (advance d (snd (CacheManager_set key v self)))) = Inr (Some v)"
proof -
  have "fst (CacheManager_set key v self) = Inr ()"
    by (cases "disk self key v") (simp_all add: cache_defs)
  then show ?thesis using set_then_get[OF assms] by simp
qed

theorem cache_round_trip_example:
  "fst (CacheManager_get ''test_key'' (advance 0 (snd (CacheManager_set ''test_key'' 42 (fresh_cache 3600 [] 0)))))
     = Inr (Some 42)"
  using cache_set_get_round_trip[of 0 "fresh_cache 3600 [] 0" "''test_key''" 42]
  by (simp add: fresh_cache_def CacheManager_init_def)

lemma get_inaccessible_file_raises:
  assumes "\<forall>data. map_of (memory_cache self) key = Some data \<longrightarrow> \<not> now self - timestamp data \<le> ttl self"
    and "map_of (files self) key = Some Inaccessible"
  shows "fst (CacheManager_get key self) = Inl (OSError key)"
  using assms by (auto simp add: cache_defs delete_conv' split: option.splits)

text \<open>
  Claim C7. Failures of the durable tier should never reach the caller of the cache. For
  \<^verbatim>\<open>set\<close> they do not (lemma \<open>set_write_error\<close>), and a raise inside the
  \<^verbatim>\<open>try\<close> of \<^verbatim>\<open>get\<close> is logged and answered with \<^verbatim>\<open>None\<close> by that call
  (lemmas \<open>get_read_error_is_miss\<close> and \<open>get_valueless_record_is_miss\<close>). Two paths of
  \<^verbatim>\<open>get\<close> escape the handler, and the code raises where the claim says it must not.
  With \<^verbatim>\<open>k.json\<close> holding \<^verbatim>\<open>{"timestamp": 0}\<close> on a cache created at time 0 with
  the default time to live, the first \<^verbatim>\<open>get("k")\<close> returns \<^verbatim>\<open>None\<close> and logs,
  but it has stored the record in the memory tier, and the second \<^verbatim>\<open>get("k")\<close>
  raises \<^verbatim>\<open>KeyError\<close>. With a file for which \<^verbatim>\<open>cache_file.exists()\<close> raises,
  \<^verbatim>\<open>get("k")\<close> raises that \<^verbatim>\<open>OSError\<close>.
\<close>

theorem cache_get_surfaces_durable_failures:
  "CacheManager_get ''k'' (fresh_cache 3600 valueless_dir 0) =
     (Inr None,
      (fresh_cache 3600 valueless_dir 0)
        \<lparr>memory_cache := [(''k'', \<lparr>timestamp = 0, val = None\<rparr>)], trace := [Log_error ''k'']\<rparr>) \<and>
   fst (CacheManager_get ''k'' (snd (CacheManager_get ''k'' (fresh_cache 3600 valueless_dir 0)))) =
     Inl (KeyError ''value'') \<and>
   fst (CacheManager_get ''k'' (fresh_cache 3600 inaccessible_dir 0)) = Inl (OSError ''k'')"
  by (simp add: fresh_cache_def valueless_dir_def inaccessible_dir_def CacheManager_init_def cache_defs)

end
